theory Spec2Isabelle
  imports Main "HOL-Library.Word"
begin

unbundle bit_operations_syntax

section \<open>Data\<close>

text \<open>
  A Node \<open>Buffer\<close> is a sequence of bytes; the payload read from the input file and every
  chunk cut from it are buffers. No function of \<open>Sender.js\<close> writes into a buffer after it
  is created, so buffers are modelled as immutable lists. Text received from the serial
  parser is a JavaScript string, a sequence of 16-bit code units; base64 text is ASCII.
\<close>

type_synonym byte = "8 word"
type_synonym buffer = "byte list"
type_synonym jschar = "16 word"
type_synonym jsstring = "jschar list"

text \<open>The exceptions the modelled code can throw.\<close>

datatype error = TypeError | RangeError

section \<open>The Buffer primitives used by the sender\<close>

text \<open>
  \<open>Buffer.alloc(size, fill)\<close> throws a RangeError for a negative size and otherwise
  returns \<open>size\<close> bytes, each equal to \<open>fill\<close>.
\<close>

definition Buffer_alloc :: "int \<Rightarrow> byte \<Rightarrow> error + buffer" where
  "Buffer_alloc sz fill =
     (if sz < 0 then Inl RangeError else Inr (replicate (nat sz) fill))"

text \<open>
  \<open>Buffer.concat(list, totalLength)\<close> joins the buffers and then cuts the result to
  \<open>totalLength\<close> bytes or fills it up with zero bytes to that length.
\<close>

definition Buffer_concat :: "buffer list \<Rightarrow> nat \<Rightarrow> buffer" where
  "Buffer_concat bufs totalLength =
     take totalLength (concat bufs) @ replicate (totalLength - length (concat bufs)) 0"

text \<open>
  \<open>appendChecksum\<close> passes the one-element array \<open>[checkSum(buf)]\<close> as the fill value.
  A fill value that is neither a string nor a buffer is coerced to an unsigned 32-bit
  integer and masked with 255; the array coerces to the number it holds.
\<close>

definition fill_value :: "int \<Rightarrow> byte" where
  "fill_value n = word_of_int n"

section \<open>checkSum\<close>

text \<open>
  \<open>element.toString(2)\<close>: the binary digits of a byte, most significant first, without
  leading zeros (\<open>"0"\<close> for zero).
\<close>

fun toString2 :: "nat \<Rightarrow> string" where
  "toString2 n =
     (if n < 2 then [if n = 0 then CHR ''0'' else CHR ''1'']
      else toString2 (n div 2) @ [if n mod 2 = 0 then CHR ''0'' else CHR ''1''])"

declare toString2.simps [simp del]

text \<open>\<open>parseInt\<close> on one character of such a string, which is \<open>0\<close> or \<open>1\<close>.\<close>

definition parseInt :: "char \<Rightarrow> int" where
  "parseInt c = (if c = CHR ''1'' then 1 else 0)"

text \<open>
  \<open>cs << 1\<close>: JavaScript converts the number to a signed 32-bit integer, shifts, and
  reads the result as a signed 32-bit integer again.
\<close>

definition shl1 :: "int \<Rightarrow> int" where
  "shl1 cs = sint (push_bit 1 (word_of_int cs :: 32 word))"

definition checkSum_step :: "int \<Rightarrow> byte \<Rightarrow> int" where
  "checkSum_step cs element =
     (let bin = toString2 (unat element)
      in shl1 cs + parseInt (bin ! (length bin - 1)))"

definition checkSum :: "buffer \<Rightarrow> int" where
  "checkSum data = foldl checkSum_step 0 data"

section \<open>appendChecksum and appendPadding\<close>

definition appendChecksum :: "buffer \<Rightarrow> error + buffer" where
  "appendChecksum buf =
     (case Buffer_alloc 1 (fill_value (checkSum buf)) of
        Inl e \<Rightarrow> Inl e
      | Inr c \<Rightarrow> Inr (Buffer_concat [buf, c] 9))"

definition appendPadding :: "buffer \<Rightarrow> error + buffer" where
  "appendPadding buf =
     (if length buf = 8 then Inr buf
      else (case Buffer_alloc (8 - int (length buf)) 0 of
              Inl e \<Rightarrow> Inl e
            | Inr p \<Rightarrow> Inr (Buffer_concat [buf, p] 8)))"

section \<open>Encoding a framed block\<close>

text \<open>
  Modelled from the spec: \<open>data.toString('base64')\<close> is a primitive of the Node runtime
  and its body is not part of \<open>Sender.js\<close>. It is the standard base64 encoding with the
  fixed alphabet: three bytes become four characters, each standing for six bits, and a
  final group of one or two bytes is completed with \<open>=\<close>.
\<close>

definition base64_alphabet :: string where
  "base64_alphabet =
     ''ABCDEFGHIJKLMNOPQRSTUVWXYZabcdefghijklmnopqrstuvwxyz0123456789+/''"

definition sextet_char :: "nat \<Rightarrow> char" where
  "sextet_char n = base64_alphabet ! n"

fun base64_groups :: "nat list \<Rightarrow> string" where
  "base64_groups (a # b # c # rest) =
     [sextet_char (a div 4), sextet_char ((a mod 4) * 16 + b div 16),
      sextet_char ((b mod 16) * 4 + c div 64), sextet_char (c mod 64)] @ base64_groups rest"
| "base64_groups [a, b] =
     [sextet_char (a div 4), sextet_char ((a mod 4) * 16 + b div 16),
      sextet_char ((b mod 16) * 4), CHR ''='']"
| "base64_groups [a] =
     [sextet_char (a div 4), sextet_char ((a mod 4) * 16), CHR ''='', CHR ''='']"
| "base64_groups [] = []"

definition toString_base64 :: "buffer \<Rightarrow> string" where
  "toString_base64 data = base64_groups (map unat data)"

text \<open>
  Modelled from the spec: the standard decoder of the peer, which is not part of
  \<open>Sender.js\<close> either. It reads four characters of the alphabet as three bytes and
  accepts \<open>=\<close> only at the end of the text; \<open>None\<close> is a text it rejects.
\<close>

definition char_sextet :: "char \<Rightarrow> nat option" where
  "char_sextet c = map_of (zip base64_alphabet [0..<64]) c"

fun base64_decode_groups :: "string \<Rightarrow> nat list option" where
  "base64_decode_groups [] = Some []"
| "base64_decode_groups (c0 # c1 # c2 # c3 # rest) =
     (case (char_sextet c0, char_sextet c1) of
        (Some s0, Some s1) \<Rightarrow>
          (if rest = [] \<and> c2 = CHR ''='' \<and> c3 = CHR ''='' then Some [s0 * 4 + s1 div 16]
           else (case char_sextet c2 of
                   Some s2 \<Rightarrow>
                     (if rest = [] \<and> c3 = CHR ''=''
                      then Some [s0 * 4 + s1 div 16, (s1 mod 16) * 16 + s2 div 4]
                      else (case (char_sextet c3, base64_decode_groups rest) of
                              (Some s3, Some bytes) \<Rightarrow>
                                Some ([s0 * 4 + s1 div 16, (s1 mod 16) * 16 + s2 div 4,
                                       (s2 mod 4) * 64 + s3] @ bytes)
                            | _ \<Rightarrow> None))
                 | None \<Rightarrow> None))
      | _ \<Rightarrow> None)"
| "base64_decode_groups _ = None"

definition base64_decode :: "string \<Rightarrow> buffer option" where
  "base64_decode text = map_option (map of_nat) (base64_decode_groups text)"

section \<open>inGroupsOf\<close>

text \<open>\<open>ary.slice(start, fin)\<close> for \<open>0 \<le> start \<le> fin\<close>: the bytes from \<open>start\<close> up to, not
  including, \<open>fin\<close> or the end of the buffer.\<close>

definition slice :: "buffer \<Rightarrow> nat \<Rightarrow> nat \<Rightarrow> buffer" where
  "slice ary start fin = take (fin - start) (drop start ary)"

text \<open>
  The \<open>for\<close> loop of \<open>inGroupsOf\<close>, with the loop variable \<open>i\<close> and the list \<open>result\<close> as
  arguments. With a group size of zero the loop variable never moves and the loop never
  ends once entered: that is the value \<open>None\<close>.
\<close>

function inGroupsOf_loop ::
  "buffer \<Rightarrow> nat \<Rightarrow> nat \<Rightarrow> buffer list \<Rightarrow> buffer list option" where
  "inGroupsOf_loop ary sz i result =
     (if i < length ary then
        (if sz = 0 then None
         else inGroupsOf_loop ary sz (i + sz) (result @ [slice ary i (i + sz)]))
      else Some result)"
  by pat_completeness auto
termination
  by (relation "measure (\<lambda>(ary, sz, i, result). length ary - i)") auto

declare inGroupsOf_loop.simps [simp del]

definition inGroupsOf :: "buffer \<Rightarrow> nat \<Rightarrow> buffer list option" where
  "inGroupsOf ary sz = inGroupsOf_loop ary sz 0 []"

section \<open>The index manager\<close>

text \<open>The two variables \<open>idx\<close> and \<open>max\<close> captured by the closures \<open>get\<close> and \<open>increase\<close>.\<close>

record indexManager_state =
  idx :: int
  max_idx :: int

definition indexManager :: "int \<Rightarrow> indexManager_state" where
  "indexManager m = \<lparr>idx = 0, max_idx = m - 1\<rparr>"

definition get :: "indexManager_state \<Rightarrow> int" where
  "get im = idx im"

text \<open>\<open>increase\<close> returns \<open>null\<close> (here \<open>None\<close>) and leaves \<open>idx\<close> alone when \<open>idx >= max\<close>.\<close>

definition increase :: "indexManager_state \<Rightarrow> int option \<times> indexManager_state" where
  "increase im =
     (if idx im \<ge> max_idx im then (None, im)
      else (Some (idx im + 1), im\<lparr>idx := idx im + 1\<rparr>))"

section \<open>The sender\<close>

text \<open>
  What the process does to the outside, in order: the lines it prints, the characters it
  writes to the serial connection, closing the connection, and leaving with an exit code.
  The messages printed while \<open>main\<close> sets the connection up are left out.
\<close>

datatype message =
    Sending_chunk int
  | Repeating_chunk int
  | No_chunk_left
  | Response jsstring
  | Data_transferred

datatype effect = Console message | Write char | Close | Exit int

text \<open>
  The state of a running sender: the index manager, the chunks, the outputs so far
  (oldest first), and whether \<open>process.exit\<close> has been called.
\<close>

record sender =
  index :: indexManager_state
  chunks :: "buffer list"
  trace :: "effect list"
  exited :: bool

definition console_log :: "sender \<Rightarrow> message \<Rightarrow> sender" where
  "console_log s m = s\<lparr>trace := trace s @ [Console m]\<rparr>"

text \<open>\<open>chunks[idx]\<close>: \<open>undefined\<close> (here \<open>None\<close>) outside the array.\<close>

definition chunk_at :: "buffer list \<Rightarrow> int \<Rightarrow> buffer option" where
  "chunk_at cs i = (if 0 \<le> i \<and> i < int (length cs) then Some (cs ! nat i) else None)"

text \<open>
  \<open>sendChunk\<close> pads the chunk, appends the checksum, encodes the nine bytes and writes
  the text one character at a time. Reading \<open>buf.length\<close> of \<open>undefined\<close> in
  \<open>appendPadding\<close> throws a TypeError. The timers that pace the writes are not modelled:
  all characters of a chunk are written before the next response is handled, which is
  the order the stop-and-wait exchange with the peer gives.
\<close>

definition sendChunk :: "sender \<Rightarrow> buffer option \<Rightarrow> error + sender" where
  "sendChunk s d =
     (case d of
        None \<Rightarrow> Inl TypeError
      | Some data \<Rightarrow>
          (case appendPadding data of
             Inl e \<Rightarrow> Inl e
           | Inr padded \<Rightarrow>
               (case appendChecksum padded of
                  Inl e \<Rightarrow> Inl e
                | Inr framed \<Rightarrow>
                    Inr (s\<lparr>trace := trace s @ map Write (toString_base64 framed)\<rparr>))))"

definition sendFirstChunk :: "sender \<Rightarrow> buffer option \<Rightarrow> error + sender" where
  "sendFirstChunk s chunk = sendChunk (console_log s (Sending_chunk 0)) chunk"

definition quit :: "sender \<Rightarrow> error + sender" where
  "quit s = Inr (s\<lparr>trace := trace s @ [Console Data_transferred, Close, Exit 0], exited := True\<rparr>)"

text \<open>Emitting \<open>EOF\<close> runs \<open>quit\<close> at once, so \<open>sendNextChunk\<close> calls it directly.\<close>

definition sendNextChunk :: "sender \<Rightarrow> error + sender" where
  "sendNextChunk s =
     (case increase (index s) of
        (None, im) \<Rightarrow> quit (console_log (s\<lparr>index := im\<rparr>) No_chunk_left)
      | (Some i, im) \<Rightarrow>
          sendChunk (console_log (s\<lparr>index := im\<rparr>) (Sending_chunk i)) (chunk_at (chunks s) i))"

text \<open>\<open>get\<close> always returns a number, so the \<open>idx == null\<close> branch of \<open>repeatChunk\<close> is
  never taken.\<close>

definition repeatChunk :: "sender \<Rightarrow> error + sender" where
  "repeatChunk s =
     (let i = get (index s)
      in sendChunk (console_log s (Repeating_chunk i)) (chunk_at (chunks s) i))"

datatype event = START | CHUNK_SUCCESS | CHUNK_FAILURE | EOF

text \<open>The handlers registered by \<open>establishEventHandlers\<close>; \<open>START\<close> is emitted with
  \<open>chunks[0]\<close>.\<close>

definition emit :: "sender \<Rightarrow> event \<Rightarrow> error + sender" where
  "emit s ev =
     (case ev of
        START \<Rightarrow> sendFirstChunk s (chunk_at (chunks s) 0)
      | CHUNK_SUCCESS \<Rightarrow> sendNextChunk s
      | CHUNK_FAILURE \<Rightarrow> repeatChunk s
      | EOF \<Rightarrow> quit s)"

section \<open>The parser of responses\<close>

text \<open>The code units \<open>String.prototype.trim\<close> removes: white space and line terminators.\<close>

definition isWhiteSpace :: "jschar \<Rightarrow> bool" where
  "isWhiteSpace c =
     (c \<in> set [0x0009, 0x000A, 0x000B, 0x000C, 0x000D, 0x0020, 0x00A0, 0x1680,
                0x2000, 0x2001, 0x2002, 0x2003, 0x2004, 0x2005, 0x2006, 0x2007,
                0x2008, 0x2009, 0x200A, 0x2028, 0x2029, 0x202F, 0x205F, 0x3000, 0xFEFF])"

definition trim :: "jsstring \<Rightarrow> jsstring" where
  "trim s = rev (dropWhile isWhiteSpace (rev (dropWhile isWhiteSpace s)))"

definition letter_k :: jsstring where
  "letter_k = [0x6B]"

definition letter_f :: jsstring where
  "letter_f = [0x66]"

text \<open>The handler that \<open>establishParser\<close> registers for the parser's \<open>data\<close> event;
  \<open>data\<close> is the received line as a string.\<close>

definition parser_on_data :: "sender \<Rightarrow> jsstring \<Rightarrow> error + sender" where
  "parser_on_data s data =
     (let response = trim data
      in if response = letter_k then emit s CHUNK_SUCCESS
         else if response = letter_f then emit s CHUNK_FAILURE
         else Inr (console_log s (Response response)))"

section \<open>main and a whole session\<close>

text \<open>
  \<open>main\<close> cuts the file into chunks of eight bytes, creates the index manager and, once
  the connection is up, emits \<open>START\<close>. An exception thrown in a handler is not caught
  and ends the process.
\<close>

definition main :: "buffer \<Rightarrow> (error + sender) option" where
  "main inFile =
     (case inGroupsOf inFile 8 of
        None \<Rightarrow> None
      | Some cs \<Rightarrow>
          Some (emit \<lparr>index = indexManager (int (length cs)), chunks = cs,
                       trace = [], exited = False\<rparr> START))"

text \<open>The events emitted for the peer's responses, handled in arrival order until the
  process has exited.\<close>

fun run :: "sender \<Rightarrow> event list \<Rightarrow> error + sender" where
  "run s [] = Inr s"
| "run s (ev # evs) =
     (if exited s then Inr s
      else (case emit s ev of Inl e \<Rightarrow> Inl e | Inr s' \<Rightarrow> run s' evs))"

definition session :: "buffer \<Rightarrow> event list \<Rightarrow> (error + sender) option" where
  "session inFile evs =
     (case main inFile of
        Some (Inr s) \<Rightarrow> Some (run s evs)
      | r \<Rightarrow> r)"

section \<open>The specification's framer\<close>

text \<open>
  The checksum in the specification's words: an accumulator that starts at 0 and, for
  each byte in order, becomes twice itself plus the least significant bit of the byte;
  the checksum is its low byte.
\<close>

definition spec_accumulator :: "buffer \<Rightarrow> int" where
  "spec_accumulator chunk =
     foldl (\<lambda>acc b. 2 * acc + (if bit b 0 then 1 else 0)) 0 chunk"

definition spec_checksum :: "buffer \<Rightarrow> byte" where
  "spec_checksum chunk = word_of_int (spec_accumulator chunk mod 256)"

text \<open>The framed block of a chunk of at most eight bytes, and the text sent for it.\<close>

definition spec_pad :: "buffer \<Rightarrow> buffer" where
  "spec_pad chunk = chunk @ replicate (8 - length chunk) 0"

definition spec_frame :: "buffer \<Rightarrow> buffer" where
  "spec_frame chunk = spec_pad chunk @ [spec_checksum (spec_pad chunk)]"

definition chunk_text :: "buffer \<Rightarrow> string" where
  "chunk_text chunk = toString_base64 (spec_frame chunk)"

section \<open>The invariant of a running session\<close>

text \<open>
  Used in the proofs only: what holds of the sender from the first chunk on, for the
  chunk list \<open>cs\<close>. The index lies within the list; until the process exits the last
  thing written is the text of the chunk at the index, and the process exits at the last
  index only.
\<close>

definition in_session :: "buffer list \<Rightarrow> sender \<Rightarrow> bool" where
  "in_session cs s \<longleftrightarrow>
     chunks s = cs \<and> (\<forall>c \<in> set cs. length c \<le> 8) \<and>
     max_idx (index s) = int (length cs) - 1 \<and>
     0 \<le> idx (index s) \<and> idx (index s) < int (length cs) \<and>
     (if exited s then idx (index s) = int (length cs) - 1
      else (\<exists>before. trace s = before @ map Write (chunk_text (cs ! nat (idx (index s))))))"

text \<open>What one transmission adds to the trace: the line printed and the characters
  written.\<close>

definition sending :: "buffer list \<Rightarrow> nat \<Rightarrow> effect list" where
  "sending cs i = Console (Sending_chunk (int i)) # map Write (chunk_text (cs ! i))"

definition repeating :: "buffer list \<Rightarrow> nat \<Rightarrow> effect list" where
  "repeating cs i = Console (Repeating_chunk (int i)) # map Write (chunk_text (cs ! i))"

definition quitting :: "effect list" where
  "quitting = [Console No_chunk_left, Console Data_transferred, Close, Exit 0]"

section \<open>Properties of checkSum\<close>

lemma toString2_last:
  "toString2 n ! (length (toString2 n) - 1) = (if even n then CHR ''0'' else CHR ''1'')"
proof (cases "n < 2")
  case True
  then have "n = 0 \<or> n = 1" by arith
  then show ?thesis
    by (auto simp: toString2.simps [of 0] toString2.simps [of 1] toString2.simps [of "Suc 0"])
next
  case False
  then have "toString2 n = toString2 (n div 2) @ [if n mod 2 = 0 then CHR ''0'' else CHR ''1'']"
    by (subst toString2.simps) simp
  then show ?thesis by (auto simp: nth_append)
qed

lemma toString2_digits: "set (toString2 n) \<subseteq> {CHR ''0'', CHR ''1''}"
  by (induction n rule: toString2.induct) (subst toString2.simps, auto)

lemma shl1_arith: "shl1 cs = (2 * cs + 2 ^ 31) mod 2 ^ 32 - 2 ^ 31"
proof -
  have "push_bit 1 (word_of_int cs :: 32 word) = word_of_int (2 * cs)"
    by (simp add: push_bit_eq_mult)
  then have "shl1 cs = sint (word_of_int (2 * cs) :: 32 word)"
    by (simp only: shl1_def)
  also have "\<dots> = (2 * cs + 2 ^ (LENGTH(32) - 1)) mod 2 ^ LENGTH(32) - 2 ^ (LENGTH(32) - 1)"
    by (rule int_word_sint)
  finally show ?thesis by simp
qed

lemma shl1_small: "0 \<le> cs \<Longrightarrow> cs < 2 ^ 30 \<Longrightarrow> shl1 cs = 2 * cs"
  by (simp add: shl1_arith)

lemma byte_even: "even (unat (e :: byte)) \<longleftrightarrow> \<not> bit e 0"
  unfolding bit_0 by (metis even_of_nat mult.right_neutral unsigned_1 word_arith_nat_mult)

lemma checkSum_step_eq: "checkSum_step cs e = shl1 cs + (if bit e 0 then 1 else 0)"
  unfolding checkSum_step_def Let_def toString2_last parseInt_def
  by (simp add: byte_even)

lemma checkSum_snoc:
  "checkSum (data @ [e]) = shl1 (checkSum data) + (if bit e 0 then 1 else 0)"
  by (simp add: checkSum_def checkSum_step_eq)

lemma spec_accumulator_snoc:
  "spec_accumulator (data @ [e]) = 2 * spec_accumulator data + (if bit e 0 then 1 else 0)"
  by (simp add: spec_accumulator_def)

lemma spec_accumulator_bounds:
  "0 \<le> spec_accumulator data \<and> spec_accumulator data < 2 ^ length data"
proof (induction data rule: rev_induct)
  case Nil
  show ?case by (simp add: spec_accumulator_def)
next
  case (snoc e data)
  then show ?case by (simp add: spec_accumulator_snoc)
qed

text \<open>Up to 31 bytes the 32-bit shift never wraps.\<close>

lemma checkSum_spec:
  "length data \<le> 31 \<Longrightarrow> checkSum data = spec_accumulator data"
proof (induction data rule: rev_induct)
  case Nil
  show ?case by (simp add: checkSum_def spec_accumulator_def)
next
  case (snoc e data)
  then have len: "length data \<le> 30" and eq: "checkSum data = spec_accumulator data"
    by simp_all
  have "spec_accumulator data < 2 ^ length data"
    using spec_accumulator_bounds by blast
  also have "\<dots> \<le> (2::int) ^ 30"
    using len by (intro power_increasing) simp_all
  finally have "shl1 (spec_accumulator data) = 2 * spec_accumulator data"
    using spec_accumulator_bounds [of data] by (intro shl1_small) simp_all
  then show ?case
    by (simp add: checkSum_snoc spec_accumulator_snoc eq)
qed

lemma checkSum_range:
  assumes "length data \<le> 8"
  shows "0 \<le> checkSum data" "checkSum data \<le> 255"
proof -
  have eq: "checkSum data = spec_accumulator data"
    using assms by (intro checkSum_spec) simp
  have "spec_accumulator data < 2 ^ length data"
    using spec_accumulator_bounds by blast
  also have "\<dots> \<le> (2::int) ^ 8"
    using assms by (intro power_increasing) simp_all
  finally show "checkSum data \<le> 255"
    by (simp add: eq)
  show "0 \<le> checkSum data"
    using spec_accumulator_bounds [of data] by (simp add: eq)
qed

section \<open>Properties of appendPadding and appendChecksum\<close>

lemma appendPadding_short:
  "length buf \<le> 8 \<Longrightarrow> appendPadding buf = Inr (buf @ replicate (8 - length buf) 0)"
  by (auto simp: appendPadding_def Buffer_alloc_def Buffer_concat_def nat_diff_distrib')

lemma appendPadding_long:
  "8 < length buf \<Longrightarrow> appendPadding buf = Inl RangeError"
  by (simp add: appendPadding_def Buffer_alloc_def)

lemma appendPadding_spec:
  "length buf \<le> 8 \<Longrightarrow> appendPadding buf = Inr (spec_pad buf)"
  by (simp add: appendPadding_short spec_pad_def)

lemma length_spec_pad: "length buf \<le> 8 \<Longrightarrow> length (spec_pad buf) = 8"
  by (simp add: spec_pad_def)

lemma appendChecksum_full:
  "length buf = 8 \<Longrightarrow> appendChecksum buf = Inr (buf @ [fill_value (checkSum buf)])"
  by (simp add: appendChecksum_def Buffer_alloc_def Buffer_concat_def)

lemma fill_value_spec:
  "length buf \<le> 31 \<Longrightarrow> fill_value (checkSum buf) = spec_checksum buf"
proof -
  assume "length buf \<le> 31"
  then have "checkSum buf = spec_accumulator buf"
    by (rule checkSum_spec)
  moreover have "(word_of_int (spec_accumulator buf mod 256) :: byte) = word_of_int (spec_accumulator buf)"
    by (simp add: word_uint_eq_iff uint_word_of_int)
  ultimately show ?thesis
    by (simp add: fill_value_def spec_checksum_def)
qed

lemma appendChecksum_spec:
  "length buf = 8 \<Longrightarrow> appendChecksum buf = Inr (buf @ [spec_checksum buf])"
  by (simp add: appendChecksum_full fill_value_spec)

lemma frame_spec:
  assumes "length chunk \<le> 8"
  shows "appendPadding chunk = Inr (spec_pad chunk)"
    and "appendChecksum (spec_pad chunk) = Inr (spec_frame chunk)"
  using assms
  by (simp_all add: appendPadding_spec appendChecksum_spec length_spec_pad spec_frame_def)

section \<open>Properties of inGroupsOf\<close>

lemma ceil_div_step:
  fixes sz d :: nat
  assumes "0 < sz" "0 < d"
  shows "(d + sz - 1) div sz = Suc ((d - sz + sz - 1) div sz)"
proof -
  have "d + sz - 1 = (d - 1) + sz"
    using assms by arith
  then have lhs: "(d + sz - 1) div sz = Suc ((d - 1) div sz)"
    using assms by (simp only: div_add_self2)
  have "(d - sz + sz - 1) div sz = (d - 1) div sz"
  proof (cases "sz \<le> d")
    case True
    then show ?thesis by simp
  next
    case False
    then show ?thesis using assms by simp
  qed
  with lhs show ?thesis by simp
qed

text \<open>With a positive group size the loop returns: it appends the groups that start at
  \<open>i\<close>, \<open>i + sz\<close>, \<open>i + 2 * sz\<close>, and so on below the length of the buffer.\<close>

lemma inGroupsOf_loop_eq:
  "0 < sz \<Longrightarrow>
   inGroupsOf_loop ary sz i result =
     Some (result @ map (\<lambda>k. take sz (drop (i + k * sz) ary))
                        [0..<(length ary - i + sz - 1) div sz])"
proof (induction ary sz i result rule: inGroupsOf_loop.induct)
  case (1 ary sz i result)
  show ?case
  proof (cases "i < length ary")
    case False
    then have "(length ary - i + sz - 1) div sz = 0"
      using "1.prems" by simp
    with False show ?thesis
      by (subst inGroupsOf_loop.simps) simp
  next
    case True
    define m where "m = (length ary - (i + sz) + sz - 1) div sz"
    have cnt: "(length ary - i + sz - 1) div sz = Suc m"
      using ceil_div_step [of sz "length ary - i"] True "1.prems"
      unfolding m_def by simp
    have IH: "inGroupsOf_loop ary sz (i + sz) (result @ [slice ary i (i + sz)]) =
        Some ((result @ [slice ary i (i + sz)]) @
          map (\<lambda>k. take sz (drop (i + sz + k * sz) ary)) [0..<m])"
      using "1.IH" [OF True] "1.prems" unfolding m_def by simp
    have "map (\<lambda>k. take sz (drop (i + k * sz) ary)) [0..<Suc m] =
          take sz (drop i ary) # map (\<lambda>k. take sz (drop (i + sz + k * sz) ary)) [0..<m]"
      by (simp add: upt_conv_Cons map_Suc_upt [symmetric] add.assoc del: upt_Suc)
    then show ?thesis
      using True "1.prems" IH cnt
      by (subst inGroupsOf_loop.simps) (simp add: slice_def)
  qed
qed

lemma inGroupsOf_8:
  "inGroupsOf ary 8 =
     Some (map (\<lambda>k. take 8 (drop (k * 8) ary)) [0..<(length ary + 7) div 8])"
  using inGroupsOf_loop_eq [of 8 ary 0 "[]"] by (simp add: inGroupsOf_def add.commute)

lemma inGroupsOf_length:
  "inGroupsOf payload 8 = Some cs \<Longrightarrow> length cs = (length payload + 7) div 8"
  by (auto simp: inGroupsOf_8)

lemma inGroupsOf_nth:
  "inGroupsOf payload 8 = Some cs \<Longrightarrow> k < length cs \<Longrightarrow>
   cs ! k = take 8 (drop (k * 8) payload)"
  by (auto simp: inGroupsOf_8)

lemma concat_groups:
  "concat (map (\<lambda>k. take n (drop (k * n) xs)) [0..<m]) = take (m * n) xs"
proof (induction m)
  case 0
  show ?case by simp
next
  case (Suc m)
  have "take (Suc m * n) xs = take (m * n + n) xs"
    by (simp add: add.commute)
  also have "\<dots> = take (m * n) xs @ take n (drop (m * n) xs)"
    by (rule take_add)
  finally show ?case
    using Suc by simp
qed

lemma inGroupsOf_concat:
  assumes "inGroupsOf payload 8 = Some cs"
  shows "concat cs = payload"
proof -
  have "length payload \<le> (length payload + 7) div 8 * 8"
    by arith
  then show ?thesis
    using assms by (auto simp: inGroupsOf_8 concat_groups)
qed

lemma inGroupsOf_chunk_length:
  assumes "inGroupsOf payload 8 = Some cs" "k < length cs"
  shows "1 \<le> length (cs ! k)" "length (cs ! k) \<le> 8"
proof -
  have "k < (length payload + 7) div 8"
    using assms by (simp add: inGroupsOf_length)
  then have "k * 8 < length payload" by arith
  then show "1 \<le> length (cs ! k)" "length (cs ! k) \<le> 8"
    using assms by (simp_all add: inGroupsOf_nth)
qed

lemma inGroupsOf_full_chunk:
  assumes "inGroupsOf payload 8 = Some cs" "Suc k < length cs"
  shows "length (cs ! k) = 8"
proof -
  have "Suc k < (length payload + 7) div 8"
    using assms by (simp add: inGroupsOf_length)
  then have "k * 8 + 8 \<le> length payload" by arith
  then show ?thesis
    using assms by (simp add: inGroupsOf_nth)
qed

lemma inGroupsOf_nonempty:
  "inGroupsOf payload 8 = Some cs \<Longrightarrow> payload \<noteq> [] \<Longrightarrow> cs \<noteq> []"
  using inGroupsOf_concat by fastforce

text \<open>Only the last chunk is changed by the padding, so the padded chunks together are
  the payload followed by zero bytes.\<close>

lemma inGroupsOf_padded_concat:
  assumes "inGroupsOf payload 8 = Some cs"
  shows "\<exists>n. concat (map spec_pad cs) = payload @ replicate n 0"
proof (cases "cs = []")
  case True
  then have "payload = []"
    using assms inGroupsOf_concat by fastforce
  with True show ?thesis by simp
next
  case False
  have "map spec_pad (butlast cs) = butlast cs"
  proof (rule nth_equalityI)
    show "length (map spec_pad (butlast cs)) = length (butlast cs)" by simp
  next
    fix k
    assume "k < length (map spec_pad (butlast cs))"
    then have k: "Suc k < length cs" by simp
    then have "length (cs ! k) = 8"
      using assms by (rule inGroupsOf_full_chunk [rotated])
    then show "map spec_pad (butlast cs) ! k = butlast cs ! k"
      using k by (simp add: nth_butlast spec_pad_def)
  qed
  moreover have "cs = butlast cs @ [last cs]"
    using False by simp
  then have "map spec_pad cs = map spec_pad (butlast cs) @ [spec_pad (last cs)]"
    by (metis list.simps(8,9) map_append)
  ultimately have "concat (map spec_pad cs) = concat (butlast cs) @ spec_pad (last cs)"
    by simp
  also have "\<dots> = concat (butlast cs @ [last cs]) @ replicate (8 - length (last cs)) 0"
    by (simp add: spec_pad_def)
  also have "\<dots> = payload @ replicate (8 - length (last cs)) 0"
    using False assms by (simp add: inGroupsOf_concat)
  finally show ?thesis by blast
qed

section \<open>Chunking (C3)\<close>

text \<open>
  C3, the claim as stated fails for the empty payload: the loop of \<open>inGroupsOf\<close> is not
  entered, so chunking returns no chunk at all, not one.
\<close>

theorem C3_empty_payload_counterexample:
  "\<not> (\<exists>cs. inGroupsOf [] 8 = Some cs \<and> length cs = 1)"
  by (simp add: inGroupsOf_8)

text \<open>
  C3, amended to payloads of length \<open>L \<ge> 1\<close>: chunking returns exactly \<open>ceil(L/8)\<close> chunks,
  written \<open>(L + 7) div 8\<close>; \<open>appendPadding\<close> turns every chunk into exactly 8 bytes that
  start with the chunk itself; the chunks, which are the unpadded prefixes of the padded
  chunks, concatenate to the payload, and so do the first \<open>L\<close> bytes of the padded chunks
  taken together.
\<close>

theorem C3_chunking:
  assumes "payload \<noteq> []"
  shows "\<exists>cs padded.
           inGroupsOf payload 8 = Some cs \<and>
           length cs = (length payload + 7) div 8 \<and>
           map appendPadding cs = map Inr padded \<and>
           (\<forall>p \<in> set padded. length p = 8) \<and>
           map2 (\<lambda>c p. take (length c) p) cs padded = cs \<and>
           concat cs = payload \<and>
           take (length payload) (concat padded) = payload"
proof -
  obtain cs where cs: "inGroupsOf payload 8 = Some cs"
    by (simp add: inGroupsOf_8)
  have len: "length c \<le> 8" if "c \<in> set cs" for c
    using that inGroupsOf_chunk_length(2) [OF cs] by (auto simp: in_set_conv_nth)
  have pad: "map appendPadding cs = map Inr (map spec_pad cs)"
    using len by (simp add: appendPadding_spec)
  have eight: "\<forall>p \<in> set (map spec_pad cs). length p = 8"
    using len by (auto simp: length_spec_pad)
  have prefix: "map2 (\<lambda>c p. take (length c) p) cs (map spec_pad cs) = cs"
    by (induction cs) (simp_all add: spec_pad_def)
  obtain n where "concat (map spec_pad cs) = payload @ replicate n 0"
    using inGroupsOf_padded_concat [OF cs] by blast
  then have "take (length payload) (concat (map spec_pad cs)) = payload"
    by simp
  with cs pad eight prefix show ?thesis
    using inGroupsOf_length [OF cs] inGroupsOf_concat [OF cs] by blast
qed

theorem C3_chunking_witness:
  "[1, 2, 3, 4, 5, 6, 7, 8, 9, 10] \<noteq> ([] :: buffer) \<and>
   (\<exists>cs padded.
      inGroupsOf [1, 2, 3, 4, 5, 6, 7, 8, 9, 10] 8 = Some cs \<and>
      length cs = (length [1, 2, 3, 4, 5, 6, 7, 8, 9, 10 :: byte] + 7) div 8 \<and>
      map appendPadding cs = map Inr padded \<and>
      concat cs = [1, 2, 3, 4, 5, 6, 7, 8, 9, 10] \<and>
      take (length [1, 2, 3, 4, 5, 6, 7, 8, 9, 10 :: byte]) (concat padded) =
        [1, 2, 3, 4, 5, 6, 7, 8, 9, 10])"
proof -
  have h: "[1, 2, 3, 4, 5, 6, 7, 8, 9, 10] \<noteq> ([] :: buffer)"
    by simp
  show ?thesis
    using h C3_chunking [OF h] by blast
qed

section \<open>The checksum (C4, C10)\<close>

text \<open>
  C4: for every padded chunk, that is every chunk of exactly 8 bytes, \<open>checkSum\<close> returns
  the accumulator of the specification (start at 0; for each byte in order, twice the
  accumulator plus the least significant bit of the byte), and the byte that
  \<open>appendChecksum\<close> appends is the low byte of that accumulator. Equal chunks have equal
  checksums.
\<close>

theorem C4_checkSum_is_spec_checksum:
  assumes "length chunk = 8"
  shows "checkSum chunk = spec_accumulator chunk \<and>
         appendChecksum chunk = Inr (chunk @ [spec_checksum chunk]) \<and>
         (chunk' = chunk \<longrightarrow> checkSum chunk' = checkSum chunk)"
  using assms by (simp add: checkSum_spec appendChecksum_spec)

theorem C4_checkSum_is_spec_checksum_witness:
  "length [1, 2, 3, 4, 5, 6, 7, 8 :: byte] = 8 \<and>
   checkSum [1, 2, 3, 4, 5, 6, 7, 8] = 170 \<and>
   appendChecksum [1, 2, 3, 4, 5, 6, 7, 8] = Inr [1, 2, 3, 4, 5, 6, 7, 8, 170]"
  using C4_checkSum_is_spec_checksum [of "[1, 2, 3, 4, 5, 6, 7, 8]"]
  by (simp add: spec_accumulator_def spec_checksum_def bit_0)

text \<open>
  C10: for every chunk of at most 8 bytes \<open>checkSum\<close> returns an integer between 0 and
  255, so the byte appended for it holds the same number and taking the low byte changes
  nothing.
\<close>

theorem C10_checkSum_fits_a_byte:
  assumes "length chunk \<le> 8"
  shows "0 \<le> checkSum chunk \<and> checkSum chunk \<le> 255 \<and>
         uint (fill_value (checkSum chunk)) = checkSum chunk \<and>
         checkSum chunk mod 256 = checkSum chunk"
proof -
  have r: "0 \<le> checkSum chunk" "checkSum chunk \<le> 255"
    using assms by (rule checkSum_range)+
  then have "checkSum chunk mod 256 = checkSum chunk"
    by simp
  moreover have "uint (fill_value (checkSum chunk)) = checkSum chunk mod 2 ^ LENGTH(8)"
    unfolding fill_value_def by (rule uint_word_of_int)
  ultimately show ?thesis
    using r by simp
qed

theorem C10_checkSum_fits_a_byte_witness:
  "length [255, 255, 255, 255, 255, 255, 255, 255 :: byte] \<le> 8 \<and>
   0 \<le> checkSum [255, 255, 255, 255, 255, 255, 255, 255] \<and>
   checkSum [255, 255, 255, 255, 255, 255, 255, 255] \<le> 255 \<and>
   uint (fill_value (checkSum [255, 255, 255, 255, 255, 255, 255, 255])) =
     checkSum [255, 255, 255, 255, 255, 255, 255, 255]"
  using C10_checkSum_fits_a_byte [of "[255, 255, 255, 255, 255, 255, 255, 255]"]
  by simp

section \<open>Framing (C5)\<close>

text \<open>
  C5: for every chunk of at most 8 bytes, \<open>appendPadding\<close> returns the chunk followed by
  zero bytes up to a length of exactly 8, and changes the chunk if and only if it is
  shorter than 8 bytes; \<open>appendChecksum\<close> then appends exactly one byte, the checksum of
  the padded chunk, so that the framed block has exactly 9 bytes and starts with the
  padded chunk.
\<close>

theorem C5_framing:
  assumes "length chunk \<le> 8"
  shows "\<exists>padded framed.
           appendPadding chunk = Inr padded \<and>
           padded = chunk @ replicate (8 - length chunk) 0 \<and>
           length padded = 8 \<and>
           (padded \<noteq> chunk \<longleftrightarrow> length chunk < 8) \<and>
           appendChecksum padded = Inr framed \<and>
           framed = padded @ [fill_value (checkSum padded)] \<and>
           length framed = 9 \<and>
           take 8 framed = padded"
proof -
  let ?padded = "chunk @ replicate (8 - length chunk) 0"
  have len: "length ?padded = 8"
    using assms by simp
  have "?padded \<noteq> chunk \<longleftrightarrow> length chunk < 8"
    using assms by auto
  moreover have "appendChecksum ?padded = Inr (?padded @ [fill_value (checkSum ?padded)])"
    using len by (rule appendChecksum_full)
  moreover have "take 8 (?padded @ [fill_value (checkSum ?padded)]) = ?padded"
    using len by simp
  ultimately show ?thesis
    using assms len by (simp add: appendPadding_short)
qed

theorem C5_framing_witness:
  "length [9, 10 :: byte] \<le> 8 \<and>
   (\<exists>padded framed.
      appendPadding [9, 10] = Inr padded \<and>
      padded = [9, 10, 0, 0, 0, 0, 0, 0] \<and>
      appendChecksum padded = Inr framed \<and>
      length framed = 9 \<and>
      take 8 framed = padded)"
  using C5_framing [of "[9, 10]"] by (simp add: numeral_eq_Suc)

section \<open>Steps of the sender\<close>

lemma sendChunk_ok:
  "length c \<le> 8 \<Longrightarrow>
   sendChunk s (Some c) = Inr (s\<lparr>trace := trace s @ map Write (chunk_text c)\<rparr>)"
  by (simp add: sendChunk_def frame_spec chunk_text_def)

lemma sendChunk_undefined: "sendChunk s None = Inl TypeError"
  by (simp add: sendChunk_def)

lemma in_session_chunk:
  assumes "in_session cs s"
  shows "chunk_at (chunks s) (idx (index s)) = Some (cs ! nat (idx (index s)))"
    and "length (cs ! nat (idx (index s))) \<le> 8"
  using assms by (auto simp: in_session_def chunk_at_def)

lemma emit_failure:
  assumes "in_session cs s"
  shows "emit s CHUNK_FAILURE =
           Inr (s\<lparr>trace := trace s @ repeating cs (nat (idx (index s)))\<rparr>)"
proof -
  have "0 \<le> idx (index s)"
    using assms by (simp add: in_session_def)
  then show ?thesis
    using in_session_chunk [OF assms]
    by (simp add: emit_def repeatChunk_def get_def console_log_def sendChunk_ok repeating_def
        Let_def)
qed

lemma emit_success_next:
  assumes "in_session cs s" "idx (index s) < int (length cs) - 1"
  shows "emit s CHUNK_SUCCESS =
           Inr (s\<lparr>index := (index s)\<lparr>idx := idx (index s) + 1\<rparr>,
                   trace := trace s @ sending cs (nat (idx (index s) + 1))\<rparr>)"
proof -
  let ?j = "idx (index s) + 1"
  have inc: "increase (index s) = (Some ?j, (index s)\<lparr>idx := ?j\<rparr>)"
    using assms by (simp add: increase_def in_session_def)
  have j: "0 \<le> ?j" "?j < int (length cs)"
    using assms by (simp_all add: in_session_def)
  then have "nat ?j < length cs" by simp
  then have "length (cs ! nat ?j) \<le> 8"
    using assms(1) by (simp add: in_session_def)
  moreover have "chunk_at (chunks s) ?j = Some (cs ! nat ?j)"
    using assms(1) j by (simp add: chunk_at_def in_session_def)
  ultimately show ?thesis
    using j by (simp add: emit_def sendNextChunk_def inc console_log_def sendChunk_ok sending_def)
qed

lemma emit_success_last:
  assumes "in_session cs s" "idx (index s) = int (length cs) - 1"
  shows "emit s CHUNK_SUCCESS = Inr (s\<lparr>trace := trace s @ quitting, exited := True\<rparr>)"
proof -
  have "increase (index s) = (None, index s)"
    using assms by (simp add: increase_def in_session_def)
  then show ?thesis
    by (simp add: emit_def sendNextChunk_def console_log_def quit_def quitting_def)
qed

lemma in_session_failure:
  "in_session cs s \<Longrightarrow> in_session cs (s\<lparr>trace := trace s @ repeating cs (nat (idx (index s)))\<rparr>)"
  by (auto simp: in_session_def repeating_def)

lemma in_session_next:
  "in_session cs s \<Longrightarrow> idx (index s) < int (length cs) - 1 \<Longrightarrow>
   in_session cs (s\<lparr>index := (index s)\<lparr>idx := idx (index s) + 1\<rparr>,
                    trace := trace s @ sending cs (nat (idx (index s) + 1))\<rparr>)"
  by (auto simp: in_session_def sending_def)

lemma in_session_last:
  "in_session cs s \<Longrightarrow> idx (index s) = int (length cs) - 1 \<Longrightarrow>
   in_session cs (s\<lparr>trace := trace s @ quitting, exited := True\<rparr>)"
  by (simp add: in_session_def)

text \<open>A response never throws in a running session, and the invariant is kept.\<close>

lemma emit_response:
  assumes "in_session cs s" "ev = CHUNK_SUCCESS \<or> ev = CHUNK_FAILURE"
  shows "\<exists>s'. emit s ev = Inr s' \<and> in_session cs s'"
proof (cases "ev = CHUNK_FAILURE")
  case True
  then show ?thesis
    using emit_failure [OF assms(1)] in_session_failure [OF assms(1)] by simp
next
  case False
  then have ev: "ev = CHUNK_SUCCESS" using assms(2) by simp
  have "idx (index s) < int (length cs) - 1 \<or> idx (index s) = int (length cs) - 1"
    using assms(1) by (auto simp: in_session_def)
  then show ?thesis
  proof
    assume less: "idx (index s) < int (length cs) - 1"
    show ?thesis
      using emit_success_next [OF assms(1) less] in_session_next [OF assms(1) less] ev by simp
  next
    assume last: "idx (index s) = int (length cs) - 1"
    show ?thesis
      using emit_success_last [OF assms(1) last] in_session_last [OF assms(1) last] ev by simp
  qed
qed

lemma run_exited: "exited s \<Longrightarrow> run s evs = Inr s"
  by (cases evs) simp_all

lemma run_responses:
  assumes "in_session cs s" "set evs \<subseteq> {CHUNK_SUCCESS, CHUNK_FAILURE}"
  shows "\<exists>s'. run s evs = Inr s' \<and> in_session cs s'"
  using assms
proof (induction evs arbitrary: s)
  case Nil
  then show ?case by simp
next
  case (Cons ev evs)
  show ?case
  proof (cases "exited s")
    case True
    then show ?thesis using Cons.prems(1) by simp
  next
    case False
    obtain s1 where s1: "emit s ev = Inr s1" "in_session cs s1"
      using emit_response [OF Cons.prems(1), of ev] Cons.prems(2) by auto
    then show ?thesis
      using Cons.IH [OF s1(2)] Cons.prems(2) False by simp
  qed
qed

lemma run_append:
  "run s (xs @ ys) = (case run s xs of Inl e \<Rightarrow> Inl e | Inr s' \<Rightarrow> run s' ys)"
proof (induction xs arbitrary: s)
  case Nil
  show ?case by simp
next
  case (Cons x xs)
  then show ?case
    by (simp add: run_exited split: sum.splits)
qed

section \<open>The start of a session\<close>

lemma main_start:
  assumes "inGroupsOf payload 8 = Some cs" "cs \<noteq> []"
  shows "main payload =
           Some (Inr \<lparr>index = \<lparr>idx = 0, max_idx = int (length cs) - 1\<rparr>, chunks = cs,
                      trace = sending cs 0, exited = False\<rparr>)"
proof -
  have "length (cs ! 0) \<le> 8"
    using inGroupsOf_chunk_length(2) [OF assms(1), of 0] assms(2) by simp
  moreover have "chunk_at cs 0 = Some (cs ! 0)"
    using assms(2) by (simp add: chunk_at_def)
  ultimately show ?thesis
    using assms(1)
    by (simp add: main_def emit_def sendFirstChunk_def console_log_def sendChunk_ok
        indexManager_def sending_def)
qed

lemma main_in_session:
  assumes "inGroupsOf payload 8 = Some cs" "cs \<noteq> []"
  shows "in_session cs \<lparr>index = \<lparr>idx = 0, max_idx = int (length cs) - 1\<rparr>, chunks = cs,
                         trace = sending cs 0, exited = False\<rparr>"
proof -
  have "\<forall>c \<in> set cs. length c \<le> 8"
    using inGroupsOf_chunk_length(2) [OF assms(1)] by (auto simp: in_set_conv_nth)
  moreover have "\<exists>before. sending cs 0 = before @ map Write (chunk_text (cs ! 0))"
    by (simp add: sending_def)
  ultimately show ?thesis
    using assms(2) by (simp add: in_session_def)
qed

lemma main_empty: "main [] = Some (Inl TypeError)"
  by (simp add: main_def inGroupsOf_8 emit_def sendFirstChunk_def chunk_at_def sendChunk_undefined)

text \<open>Every state a session reaches through responses satisfies the invariant.\<close>

lemma session_reaches:
  assumes "inGroupsOf payload 8 = Some cs" "cs \<noteq> []"
    and "set evs \<subseteq> {CHUNK_SUCCESS, CHUNK_FAILURE}"
  shows "\<exists>s. session payload evs = Some (Inr s) \<and> in_session cs s"
  using run_responses [OF main_in_session [OF assms(1,2)] assms(3)]
  by (auto simp: session_def main_start [OF assms(1,2)])

lemma session_Inr_nonempty:
  assumes "inGroupsOf payload 8 = Some cs" "session payload evs = Some (Inr s)"
  shows "cs \<noteq> []"
proof
  assume "cs = []"
  then have "payload = []"
    using inGroupsOf_concat [OF assms(1)] by simp
  then show False
    using assms(2) by (simp add: session_def main_empty)
qed

section \<open>A session answered with Success only (C1)\<close>

lemma run_all_success:
  assumes "in_session cs s" "\<not> exited s" "idx (index s) = int i" "i + k + 1 = length cs"
  shows "\<exists>s'. run s (replicate (Suc k) CHUNK_SUCCESS) = Inr s' \<and> exited s' \<and>
              trace s' = trace s @ concat (map (sending cs) [Suc i..<length cs]) @ quitting"
  using assms
proof (induction k arbitrary: s i)
  case 0
  then have "idx (index s) = int (length cs) - 1"
    by simp
  then have "emit s CHUNK_SUCCESS = Inr (s\<lparr>trace := trace s @ quitting, exited := True\<rparr>)"
    using "0.prems"(1) by (rule emit_success_last [rotated])
  moreover have "length cs = Suc i"
    using "0.prems"(4) by simp
  ultimately show ?case
    using "0.prems"(2) by simp
next
  case (Suc k)
  let ?s1 = "s\<lparr>index := (index s)\<lparr>idx := idx (index s) + 1\<rparr>,
               trace := trace s @ sending cs (nat (idx (index s) + 1))\<rparr>"
  have less: "idx (index s) < int (length cs) - 1"
    using Suc.prems(3,4) by simp
  have step: "emit s CHUNK_SUCCESS = Inr ?s1"
    using Suc.prems(1) less by (rule emit_success_next)
  have "in_session cs ?s1"
    using Suc.prems(1) less by (rule in_session_next)
  moreover have "\<not> exited ?s1"
    using Suc.prems(2) by simp
  moreover have "idx (index ?s1) = int (Suc i)"
    using Suc.prems(3) by simp
  moreover have "Suc i + k + 1 = length cs"
    using Suc.prems(4) by simp
  ultimately obtain s' where s': "run ?s1 (replicate (Suc k) CHUNK_SUCCESS) = Inr s'" "exited s'"
      "trace s' = trace ?s1 @ concat (map (sending cs) [Suc (Suc i)..<length cs]) @ quitting"
    using Suc.IH [of ?s1 "Suc i"] by blast
  have "nat (idx (index s) + 1) = Suc i"
    using Suc.prems(3) by simp
  moreover have "[Suc i..<length cs] = Suc i # [Suc (Suc i)..<length cs]"
    using Suc.prems(4) by (simp add: upt_conv_Cons)
  ultimately have "trace s' = trace s @ concat (map (sending cs) [Suc i..<length cs]) @ quitting"
    using s'(3) by simp
  moreover have "run s (replicate (Suc (Suc k)) CHUNK_SUCCESS) = Inr s'"
    using step s'(1) Suc.prems(2) by simp
  ultimately show ?case
    using s'(2) by blast
qed

text \<open>
  C1: for every payload cut into \<open>count \<ge> 1\<close> chunks, a session that receives exactly
  \<open>count\<close> Success events ends with the process exited, and its trace is: for each index
  \<open>0, 1, \<dots>, count - 1\<close>, once and in this order, the line \<open>Sending chunk\<close> with that index
  and the characters of that chunk's text; then the end of the stream, which is the line
  \<open>No chunk left\<close>, the closing line, closing the connection and leaving with code 0.
\<close>

theorem C1_all_success_session:
  assumes "inGroupsOf payload 8 = Some cs" "1 \<le> length cs"
  shows "\<exists>s. session payload (replicate (length cs) CHUNK_SUCCESS) = Some (Inr s) \<and>
             exited s \<and>
             trace s = concat (map (sending cs) [0..<length cs]) @ quitting"
proof -
  let ?s0 = "\<lparr>index = \<lparr>idx = 0, max_idx = int (length cs) - 1\<rparr>, chunks = cs,
              trace = sending cs 0, exited = False\<rparr>"
  have ne: "cs \<noteq> []"
    using assms(2) by auto
  have start: "main payload = Some (Inr ?s0)"
    using assms(1) ne by (rule main_start)
  have inv: "in_session cs ?s0"
    using assms(1) ne by (rule main_in_session)
  obtain k where k: "length cs = Suc k"
    using ne by (cases cs) simp_all
  obtain s where s: "run ?s0 (replicate (Suc k) CHUNK_SUCCESS) = Inr s" "exited s"
      "trace s = trace ?s0 @ concat (map (sending cs) [Suc 0..<length cs]) @ quitting"
    using run_all_success [OF inv, of 0 k] k by auto
  have "[0..<length cs] = 0 # [Suc 0..<length cs]"
    using k by (simp add: upt_conv_Cons)
  then have "trace s = concat (map (sending cs) [0..<length cs]) @ quitting"
    using s(3) by simp
  then show ?thesis
    using s(1,2) start k by (simp add: session_def)
qed

theorem C1_all_success_session_witness:
  "inGroupsOf [1, 2, 3, 4, 5, 6, 7, 8, 9, 10] 8 = Some [[1, 2, 3, 4, 5, 6, 7, 8], [9, 10]] \<and>
   1 \<le> length [[1, 2, 3, 4, 5, 6, 7, 8], [9, 10 :: byte]] \<and>
   (\<exists>s. session [1, 2, 3, 4, 5, 6, 7, 8, 9, 10] [CHUNK_SUCCESS, CHUNK_SUCCESS] = Some (Inr s) \<and>
        exited s \<and>
        trace s =
          Console (Sending_chunk 0) # map Write ''AQIDBAUGBwiq'' @
          Console (Sending_chunk 1) # map Write ''CQoAAAAAAACA'' @
          [Console No_chunk_left, Console Data_transferred, Close, Exit 0])"
proof -
  have h: "inGroupsOf [1, 2, 3, 4, 5, 6, 7, 8, 9, 10] 8 = Some [[1, 2, 3, 4, 5, 6, 7, 8], [9, 10]]"
    by code_simp
  have t0: "chunk_text [1, 2, 3, 4, 5, 6, 7, 8] = ''AQIDBAUGBwiq''"
    by code_simp
  have t1: "chunk_text [9, 10] = ''CQoAAAAAAACA''"
    by code_simp
  have r: "replicate (length [[1, 2, 3, 4, 5, 6, 7, 8], [9, 10 :: byte]]) CHUNK_SUCCESS =
           [CHUNK_SUCCESS, CHUNK_SUCCESS]"
    by (simp add: numeral_eq_Suc)
  show ?thesis
    using C1_all_success_session [OF h] h
    unfolding r by (simp add: sending_def quitting_def t0 t1 upt_conv_Cons)
qed

section \<open>Failure responses (C2)\<close>

lemma run_failures:
  assumes "in_session cs s" "\<not> exited s"
  shows "run s (replicate n CHUNK_FAILURE) =
           Inr (s\<lparr>trace := trace s @ concat (replicate n (repeating cs (nat (idx (index s)))))\<rparr>)"
  using assms
proof (induction n arbitrary: s)
  case 0
  show ?case by simp
next
  case (Suc n)
  let ?s1 = "s\<lparr>trace := trace s @ repeating cs (nat (idx (index s)))\<rparr>"
  have step: "emit s CHUNK_FAILURE = Inr ?s1"
    using Suc.prems(1) by (rule emit_failure)
  have "in_session cs ?s1"
    using Suc.prems(1) by (rule in_session_failure)
  moreover have "\<not> exited ?s1"
    using Suc.prems(2) by simp
  ultimately have "run ?s1 (replicate n CHUNK_FAILURE) =
      Inr (?s1\<lparr>trace := trace ?s1 @ concat (replicate n (repeating cs (nat (idx (index ?s1)))))\<rparr>)"
    by (rule Suc.IH)
  then show ?case
    using step Suc.prems(2) by simp
qed

text \<open>
  C2: in every state that a session reaches through Success and Failure events and in
  which the process has not exited, the index \<open>i\<close> lies within the chunks (it may be the
  final one), and the last thing written was the text of chunk \<open>i\<close>. A Failure event then
  prints \<open>Repeating chunk i\<close> and writes that same text again; it changes neither the
  index nor anything else but the trace, so the session is not terminated. This holds for
  any number \<open>n\<close> of Failure events in a row: all \<open>n\<close> are answered by re-sending chunk \<open>i\<close>.
\<close>

theorem C2_failure_resends_same_chunk:
  assumes "inGroupsOf payload 8 = Some cs"
    and "set evs \<subseteq> {CHUNK_SUCCESS, CHUNK_FAILURE}"
    and "session payload evs = Some (Inr s)"
    and "\<not> exited s"
  shows "\<exists>i before.
           idx (index s) = int i \<and> i < length cs \<and>
           trace s = before @ map Write (chunk_text (cs ! i)) \<and>
           emit s CHUNK_FAILURE =
             Inr (s\<lparr>trace := trace s @ Console (Repeating_chunk (int i)) #
                                            map Write (chunk_text (cs ! i))\<rparr>) \<and>
           (\<forall>n. run s (replicate n CHUNK_FAILURE) =
                  Inr (s\<lparr>trace := trace s @
                         concat (replicate n (Console (Repeating_chunk (int i)) #
                                              map Write (chunk_text (cs ! i))))\<rparr>))"
proof -
  have ne: "cs \<noteq> []"
    using assms(1,3) by (rule session_Inr_nonempty)
  have inv: "in_session cs s"
    using session_reaches [OF assms(1) ne assms(2)] assms(3) by simp
  define i where "i = nat (idx (index s))"
  have i: "idx (index s) = int i" "i < length cs"
    using inv by (simp_all add: in_session_def i_def nat_less_iff)
  obtain before where "trace s = before @ map Write (chunk_text (cs ! i))"
    using inv assms(4) by (auto simp: in_session_def i_def)
  moreover have "emit s CHUNK_FAILURE =
      Inr (s\<lparr>trace := trace s @ Console (Repeating_chunk (int i)) #
                                     map Write (chunk_text (cs ! i))\<rparr>)"
    using emit_failure [OF inv] by (simp add: repeating_def i(1))
  moreover have "run s (replicate n CHUNK_FAILURE) =
      Inr (s\<lparr>trace := trace s @
             concat (replicate n (Console (Repeating_chunk (int i)) #
                                  map Write (chunk_text (cs ! i))))\<rparr>)" for n
    using run_failures [OF inv assms(4), of n] by (simp add: repeating_def i(1))
  ultimately show ?thesis
    using i by blast
qed

text \<open>The witness is at the final index of a two-chunk payload, after one Success.\<close>

theorem C2_failure_resends_same_chunk_witness:
  "inGroupsOf [1, 2, 3, 4, 5, 6, 7, 8, 9, 10] 8 = Some [[1, 2, 3, 4, 5, 6, 7, 8], [9, 10]] \<and>
   set [CHUNK_SUCCESS] \<subseteq> {CHUNK_SUCCESS, CHUNK_FAILURE} \<and>
   (\<exists>s. session [1, 2, 3, 4, 5, 6, 7, 8, 9, 10] [CHUNK_SUCCESS] = Some (Inr s) \<and>
        \<not> exited s \<and>
        idx (index s) = 1 \<and>
        (\<exists>before. trace s = before @ map Write ''CQoAAAAAAACA'') \<and>
        emit s CHUNK_FAILURE =
          Inr (s\<lparr>trace := trace s @ Console (Repeating_chunk 1) # map Write ''CQoAAAAAAACA''\<rparr>))"
proof -
  let ?cs = "[[1, 2, 3, 4, 5, 6, 7, 8], [9, 10 :: byte]]"
  let ?s = "\<lparr>index = \<lparr>idx = 1, max_idx = 1\<rparr>, chunks = ?cs,
             trace = Console (Sending_chunk 0) # map Write ''AQIDBAUGBwiq'' @
                     Console (Sending_chunk 1) # map Write ''CQoAAAAAAACA'',
             exited = False\<rparr>"
  have h1: "inGroupsOf [1, 2, 3, 4, 5, 6, 7, 8, 9, 10] 8 = Some ?cs"
    by code_simp
  have h2: "set [CHUNK_SUCCESS] \<subseteq> {CHUNK_SUCCESS, CHUNK_FAILURE}"
    by simp
  have h3: "session [1, 2, 3, 4, 5, 6, 7, 8, 9, 10] [CHUNK_SUCCESS] = Some (Inr ?s)"
    by code_simp
  have h4: "\<not> exited ?s"
    by simp
  have t1: "chunk_text [9, 10] = ''CQoAAAAAAACA''"
    by code_simp
  obtain i before where
    "idx (index ?s) = int i" "i < length ?cs"
    "trace ?s = before @ map Write (chunk_text (?cs ! i))"
    "emit ?s CHUNK_FAILURE =
       Inr (?s\<lparr>trace := trace ?s @ Console (Repeating_chunk (int i)) #
                                       map Write (chunk_text (?cs ! i))\<rparr>)"
    using C2_failure_resends_same_chunk [OF h1 h2 h3 h4] by blast
  moreover from this have "i = 1"
    by simp
  ultimately have
    "\<exists>before. trace ?s = before @ map Write ''CQoAAAAAAACA''"
    "emit ?s CHUNK_FAILURE =
       Inr (?s\<lparr>trace := trace ?s @ Console (Repeating_chunk 1) # map Write ''CQoAAAAAAACA''\<rparr>)"
    using t1 by auto
  then show ?thesis
    using h1 h2 h3 h4 by simp
qed

section \<open>The transmission index (C9)\<close>

lemma emit_response_index:
  assumes "in_session cs s" "\<not> exited s" "emit s ev = Inr s'"
  shows "ev = CHUNK_FAILURE \<Longrightarrow> idx (index s') = idx (index s)"
    and "ev = CHUNK_SUCCESS \<Longrightarrow>
         idx (index s') =
           (if idx (index s) = int (length cs) - 1 then idx (index s) else idx (index s) + 1)"
proof -
  show "idx (index s') = idx (index s)" if "ev = CHUNK_FAILURE"
    using emit_failure [OF assms(1)] assms(3) that by auto
  show "idx (index s') =
          (if idx (index s) = int (length cs) - 1 then idx (index s) else idx (index s) + 1)"
    if ev: "ev = CHUNK_SUCCESS"
  proof (cases "idx (index s) = int (length cs) - 1")
    case True
    then show ?thesis
      using emit_success_last [OF assms(1) True] assms(3) ev by auto
  next
    case False
    then have less: "idx (index s) < int (length cs) - 1"
      using assms(1) by (simp add: in_session_def)
    show ?thesis
      using emit_success_next [OF assms(1) less] assms(3) ev False by auto
  qed
qed

lemma index_after_response:
  assumes "inGroupsOf payload 8 = Some cs" "cs \<noteq> []"
    and "set evs \<subseteq> {CHUNK_SUCCESS, CHUNK_FAILURE}"
    and "ev = CHUNK_SUCCESS \<or> ev = CHUNK_FAILURE"
  shows "\<exists>s0 s s'.
           session payload [] = Some (Inr s0) \<and> get (index s0) = 0 \<and>
           session payload evs = Some (Inr s) \<and>
           session payload (evs @ [ev]) = Some (Inr s') \<and>
           0 \<le> get (index s) \<and> get (index s) \<le> int (length cs) - 1 \<and>
           get (index s) \<le> get (index s') \<and>
           (ev = CHUNK_FAILURE \<longrightarrow> get (index s') = get (index s)) \<and>
           (ev = CHUNK_SUCCESS \<longrightarrow>
              get (index s') =
                (if get (index s) = int (length cs) - 1 then get (index s)
                 else get (index s) + 1))"
proof -
  let ?s0 = "\<lparr>index = \<lparr>idx = 0, max_idx = int (length cs) - 1\<rparr>, chunks = cs,
              trace = sending cs 0, exited = False\<rparr>"
  have ne: "cs \<noteq> []"
    by (rule assms(2))
  have start: "main payload = Some (Inr ?s0)"
    using assms(1) ne by (rule main_start)
  have inv0: "in_session cs ?s0"
    using assms(1) ne by (rule main_in_session)
  obtain s where s: "run ?s0 evs = Inr s" "in_session cs s"
    using run_responses [OF inv0 assms(3)] by blast
  have range: "0 \<le> idx (index s)" "idx (index s) \<le> int (length cs) - 1"
    using s(2) by (simp_all add: in_session_def)
  have "\<exists>s'. run s [ev] = Inr s' \<and>
          (ev = CHUNK_FAILURE \<longrightarrow> idx (index s') = idx (index s)) \<and>
          (ev = CHUNK_SUCCESS \<longrightarrow>
             idx (index s') =
               (if idx (index s) = int (length cs) - 1 then idx (index s)
                else idx (index s) + 1))"
  proof (cases "exited s")
    case True
    then have "idx (index s) = int (length cs) - 1"
      using s(2) by (simp add: in_session_def)
    then show ?thesis
      using True by simp
  next
    case False
    obtain s' where s': "emit s ev = Inr s'"
      using emit_response [OF s(2) assms(4)] by blast
    then show ?thesis
      using emit_response_index [OF s(2) False s'] False by simp
  qed
  then obtain s' where s': "run s [ev] = Inr s'"
      "ev = CHUNK_FAILURE \<longrightarrow> idx (index s') = idx (index s)"
      "ev = CHUNK_SUCCESS \<longrightarrow>
         idx (index s') =
           (if idx (index s) = int (length cs) - 1 then idx (index s) else idx (index s) + 1)"
    by blast
  have "run ?s0 (evs @ [ev]) = Inr s'"
    using s(1) s'(1) by (simp add: run_append)
  moreover have "idx (index s) \<le> idx (index s')"
    using s'(2,3) assms(4) by auto
  ultimately show ?thesis
    using start s(1) s'(2,3) range by (simp add: session_def get_def)
qed

text \<open>
  C9: in a session the index is 0 at the start. In every state \<open>s\<close> that the session
  reaches over a sequence of Success and Failure events the index lies within
  \<open>[0, count - 1]\<close>, and one more event does not decrease it: a Failure leaves it where it
  is, and a Success adds exactly one to it unless it is \<open>count - 1\<close> already, where it
  stays. With \<open>count \<ge> 1\<close> chunks every such sequence reaches a state.
\<close>

theorem C9_index_in_range_and_monotone:
  assumes "inGroupsOf payload 8 = Some cs"
    and "set evs \<subseteq> {CHUNK_SUCCESS, CHUNK_FAILURE}"
    and "ev = CHUNK_SUCCESS \<or> ev = CHUNK_FAILURE"
  shows "(1 \<le> length cs \<longrightarrow> (\<exists>s. session payload evs = Some (Inr s))) \<and>
         (\<forall>s. session payload evs = Some (Inr s) \<longrightarrow>
            (\<exists>s0 s'.
               session payload [] = Some (Inr s0) \<and> get (index s0) = 0 \<and>
               session payload (evs @ [ev]) = Some (Inr s') \<and>
               0 \<le> get (index s) \<and> get (index s) \<le> int (length cs) - 1 \<and>
               get (index s) \<le> get (index s') \<and>
               (ev = CHUNK_FAILURE \<longrightarrow> get (index s') = get (index s)) \<and>
               (ev = CHUNK_SUCCESS \<longrightarrow>
                  get (index s') =
                    (if get (index s) = int (length cs) - 1 then get (index s)
                     else get (index s) + 1))))"
proof (intro conjI impI allI)
  assume "1 \<le> length cs"
  then have "cs \<noteq> []" by auto
  then show "\<exists>s. session payload evs = Some (Inr s)"
    using session_reaches [OF assms(1) _ assms(2)] by blast
next
  fix s
  assume s: "session payload evs = Some (Inr s)"
  have ne: "cs \<noteq> []"
    using assms(1) s by (rule session_Inr_nonempty)
  show "\<exists>s0 s'.
          session payload [] = Some (Inr s0) \<and> get (index s0) = 0 \<and>
          session payload (evs @ [ev]) = Some (Inr s') \<and>
          0 \<le> get (index s) \<and> get (index s) \<le> int (length cs) - 1 \<and>
          get (index s) \<le> get (index s') \<and>
          (ev = CHUNK_FAILURE \<longrightarrow> get (index s') = get (index s)) \<and>
          (ev = CHUNK_SUCCESS \<longrightarrow>
             get (index s') =
               (if get (index s) = int (length cs) - 1 then get (index s)
                else get (index s) + 1))"
    using index_after_response [OF assms(1) ne assms(2,3)] s by auto
qed

text \<open>The witness: a two-chunk payload, one Failure, then one Success.\<close>

theorem C9_index_in_range_and_monotone_witness:
  "inGroupsOf [1, 2, 3, 4, 5, 6, 7, 8, 9, 10] 8 = Some [[1, 2, 3, 4, 5, 6, 7, 8], [9, 10]] \<and>
   set [CHUNK_FAILURE] \<subseteq> {CHUNK_SUCCESS, CHUNK_FAILURE} \<and>
   1 \<le> length [[1, 2, 3, 4, 5, 6, 7, 8], [9, 10 :: byte]] \<and>
   (\<exists>s0 s s'.
      session [1, 2, 3, 4, 5, 6, 7, 8, 9, 10] [] = Some (Inr s0) \<and> get (index s0) = 0 \<and>
      session [1, 2, 3, 4, 5, 6, 7, 8, 9, 10] [CHUNK_FAILURE] = Some (Inr s) \<and>
      session [1, 2, 3, 4, 5, 6, 7, 8, 9, 10] [CHUNK_FAILURE, CHUNK_SUCCESS] = Some (Inr s') \<and>
      get (index s) = 0 \<and> get (index s') = 1)"
proof -
  let ?s = "\<lparr>index = \<lparr>idx = 0, max_idx = 1\<rparr>,
             chunks = [[1, 2, 3, 4, 5, 6, 7, 8], [9, 10]],
             trace = Console (Sending_chunk 0) # map Write ''AQIDBAUGBwiq'' @
                     Console (Repeating_chunk 0) # map Write ''AQIDBAUGBwiq'',
             exited = False\<rparr>"
  have h1: "inGroupsOf [1, 2, 3, 4, 5, 6, 7, 8, 9, 10] 8 = Some [[1, 2, 3, 4, 5, 6, 7, 8], [9, 10]]"
    by code_simp
  have h2: "set [CHUNK_FAILURE] \<subseteq> {CHUNK_SUCCESS, CHUNK_FAILURE}"
    by simp
  have h3: "CHUNK_SUCCESS = CHUNK_SUCCESS \<or> CHUNK_SUCCESS = CHUNK_FAILURE"
    by simp
  have h4: "session [1, 2, 3, 4, 5, 6, 7, 8, 9, 10] [CHUNK_FAILURE] = Some (Inr ?s)"
    by code_simp
  obtain s0 s' where
    r0: "session [1, 2, 3, 4, 5, 6, 7, 8, 9, 10] [] = Some (Inr s0)" "get (index s0) = 0" and
    r2: "session [1, 2, 3, 4, 5, 6, 7, 8, 9, 10] ([CHUNK_FAILURE] @ [CHUNK_SUCCESS]) = Some (Inr s')" and
    r3: "get (index s') =
       (if get (index ?s) = int (length [[1, 2, 3, 4, 5, 6, 7, 8], [9, 10 :: byte]]) - 1
        then get (index ?s) else get (index ?s) + 1)"
    using C9_index_in_range_and_monotone [OF h1 h2 h3] h4 by blast
  have "get (index ?s) = 0" "get (index s') = 1"
    using r3 by (simp_all add: get_def)
  then show ?thesis
    using h1 h2 h4 r0 r2 by auto
qed

section \<open>The empty payload (C6)\<close>

text \<open>
  C6: the sender run on an empty payload. Chunking returns no chunk, \<open>main\<close> emits
  \<open>START\<close> with \<open>chunks[0]\<close>, which is \<open>undefined\<close>, and \<open>appendPadding\<close> throws a TypeError
  when it reads its length: nothing is written, and whatever the peer answers the
  process never reaches \<open>quit\<close>.
\<close>

theorem C6_empty_payload_throws:
  "inGroupsOf [] 8 = Some [] \<and>
   main [] = Some (Inl TypeError) \<and>
   (\<forall>evs. session [] evs = Some (Inl TypeError))"
  by (simp add: inGroupsOf_8 main_empty session_def)

section \<open>The base64 text of a block (C8)\<close>

lemma base64_alphabet_length: "length base64_alphabet = 64"
  by (simp add: base64_alphabet_def)

lemma base64_alphabet_distinct: "distinct base64_alphabet"
  by code_simp

lemma base64_alphabet_printable:
  "c \<in> set base64_alphabet \<Longrightarrow> 32 < (of_char c :: nat) \<and> (of_char c :: nat) < 127"
proof -
  have "list_all (\<lambda>c. 32 < (of_char c :: nat) \<and> (of_char c :: nat) < 127) base64_alphabet"
    by code_simp
  then show "c \<in> set base64_alphabet \<Longrightarrow> 32 < (of_char c :: nat) \<and> (of_char c :: nat) < 127"
    by (simp add: list_all_iff)
qed

lemma pad_char_not_in_alphabet: "CHR ''='' \<notin> set base64_alphabet"
  by (simp add: base64_alphabet_def)

lemma sextet_char_in_alphabet: "n < 64 \<Longrightarrow> sextet_char n \<in> set base64_alphabet"
  by (simp add: sextet_char_def base64_alphabet_length)

lemma sextet_char_not_pad: "n < 64 \<Longrightarrow> sextet_char n \<noteq> CHR ''=''"
  using sextet_char_in_alphabet pad_char_not_in_alphabet by metis

lemma char_sextet_sextet_char: "n < 64 \<Longrightarrow> char_sextet (sextet_char n) = Some n"
proof -
  assume n: "n < 64"
  have "map_of (zip base64_alphabet [0..<64]) (base64_alphabet ! n) = Some ([0..<64] ! n)"
    using n by (intro map_of_zip_nth) (simp_all add: base64_alphabet_length base64_alphabet_distinct)
  then show ?thesis
    using n by (simp add: char_sextet_def sextet_char_def del: upt_Suc)
qed

text \<open>The four sextets of three bytes, and the bytes read back from them.\<close>

lemma sextets_bounded:
  fixes a b c :: nat
  assumes "a < 256" "b < 256" "c < 256"
  shows "a div 4 < 64" "(a mod 4) * 16 + b div 16 < 64"
    "(b mod 16) * 4 + c div 64 < 64" "c mod 64 < 64" "(a mod 4) * 16 < 64" "(b mod 16) * 4 < 64"
proof -
  have m: "a mod 4 < 4" "b mod 16 < 16" by simp_all
  have d: "b div 16 < 16" "c div 64 < 4" "a div 4 < 64"
    using assms by (simp_all add: div_less_iff_less_mult)
  show "a div 4 < 64" by (rule d)
  show "(a mod 4) * 16 + b div 16 < 64" using m(1) d(1) by linarith
  show "(b mod 16) * 4 + c div 64 < 64" using m(2) d(2) by linarith
  show "c mod 64 < 64" by simp
  show "(a mod 4) * 16 < 64" using m(1) by linarith
  show "(b mod 16) * 4 < 64" using m(2) by linarith
qed

lemma sextets_bytes:
  fixes a b c :: nat
  assumes "a < 256" "b < 256" "c < 256"
  shows "a div 4 * 4 + ((a mod 4) * 16 + b div 16) div 16 = a"
    and "(((a mod 4) * 16 + b div 16) mod 16) * 16 + ((b mod 16) * 4 + c div 64) div 4 = b"
    and "(((b mod 16) * 4 + c div 64) mod 4) * 64 + c mod 64 = c"
    and "a div 4 * 4 + ((a mod 4) * 16) div 16 = a"
    and "(((a mod 4) * 16 + b div 16) mod 16) * 16 + ((b mod 16) * 4) div 4 = b"
proof -
  have d: "b div 16 < 16" "c div 64 < 4"
    using assms by (simp_all add: div_less_iff_less_mult)
  have e1: "((a mod 4) * 16 + b div 16) div 16 = a mod 4"
    using d(1) by simp
  have e2: "((a mod 4) * 16 + b div 16) mod 16 = b div 16"
    using d(1) by simp
  have e3: "((b mod 16) * 4 + c div 64) div 4 = b mod 16"
    using d(2) by simp
  have e4: "((b mod 16) * 4 + c div 64) mod 4 = c div 64"
    using d(2) by simp
  have e5: "b div 16 mod 16 = b div 16"
    using d(1) by (rule mod_less)
  have e6: "c div 64 mod 4 = c div 64"
    using d(2) by (rule mod_less)
  show "a div 4 * 4 + ((a mod 4) * 16 + b div 16) div 16 = a"
    by (simp add: e1)
  show "(((a mod 4) * 16 + b div 16) mod 16) * 16 + ((b mod 16) * 4 + c div 64) div 4 = b"
    using e5 by (simp add: e3)
  show "(((b mod 16) * 4 + c div 64) mod 4) * 64 + c mod 64 = c"
    using e6 by simp
  show "a div 4 * 4 + ((a mod 4) * 16) div 16 = a"
    by simp
  show "(((a mod 4) * 16 + b div 16) mod 16) * 16 + ((b mod 16) * 4) div 4 = b"
    using e5 by simp
qed

lemma base64_decode_groups_encode:
  "\<forall>x \<in> set xs. x < 256 \<Longrightarrow> base64_decode_groups (base64_groups xs) = Some xs"
proof (induction xs rule: base64_groups.induct)
  case (1 a b c rest)
  then have lt: "a < 256" "b < 256" "c < 256" and IH: "base64_decode_groups (base64_groups rest) = Some rest"
    by simp_all
  show ?case
    using sextets_bounded [OF lt] sextets_bytes(1,2,3) [OF lt] IH
    by (simp add: char_sextet_sextet_char sextet_char_not_pad)
next
  case (2 a b)
  then have lt: "a < 256" "b < 256" "(0::nat) < 256"
    by simp_all
  show ?case
    using sextets_bounded [OF lt] sextets_bytes(1,5) [OF lt]
    by (simp add: char_sextet_sextet_char sextet_char_not_pad)
next
  case (3 a)
  then have lt: "a < 256" "(0::nat) < 256" "(0::nat) < 256"
    by simp_all
  show ?case
    using sextets_bounded [OF lt] sextets_bytes(4) [OF lt]
    by (simp add: char_sextet_sextet_char sextet_char_not_pad)
next
  case 4
  show ?case by simp
qed

lemma bytes_below_256: "\<forall>x \<in> set (map unat (data :: buffer)). x < 256"
proof
  fix x assume "x \<in> set (map unat data)"
  then obtain w :: byte where "x = unat w" by auto
  then show "x < 256"
    using unsigned_less [of w, where ?'a = nat] by simp
qed

lemma base64_decode_toString:
  "base64_decode (toString_base64 data) = Some data"
proof -
  have "\<forall>x \<in> set (map unat data). x < 256"
    by (rule bytes_below_256)
  then have "base64_decode_groups (base64_groups (map unat data)) = Some (map unat data)"
    by (rule base64_decode_groups_encode)
  then show ?thesis
    by (simp add: base64_decode_def toString_base64_def comp_def map_idI)
qed

text \<open>Whole groups of three bytes need no \<open>=\<close>.\<close>

lemma base64_groups_whole:
  "\<forall>x \<in> set xs. x < 256 \<Longrightarrow> length xs mod 3 = 0 \<Longrightarrow>
   length (base64_groups xs) = 4 * (length xs div 3) \<and>
   set (base64_groups xs) \<subseteq> set base64_alphabet"
proof (induction xs rule: base64_groups.induct)
  case (1 a b c rest)
  then have lt: "a < 256" "b < 256" "c < 256"
    and IH: "length (base64_groups rest) = 4 * (length rest div 3) \<and>
             set (base64_groups rest) \<subseteq> set base64_alphabet"
    by simp_all
  have "length (a # b # c # rest) div 3 = Suc (length rest div 3)"
    by simp
  then show ?case
    using sextets_bounded [OF lt] IH by (simp add: sextet_char_in_alphabet)
qed simp_all


text \<open>
  C8: the text of a block is a function of its bytes alone, so equal blocks have equal
  texts. For every block of 9 bytes the text has exactly 12 characters, every character
  is one of the 64 characters of the fixed alphabet and a printable byte (a code above
  32 and below 127), and the standard decoder reads the 9 bytes back from it.
\<close>

theorem C8_base64_of_framed_block:
  assumes "length block = 9"
  shows "length (toString_base64 block) = 12 \<and>
         set (toString_base64 block) \<subseteq> set base64_alphabet \<and>
         (\<forall>c \<in> set (toString_base64 block). 32 < (of_char c :: nat) \<and> (of_char c :: nat) < 127) \<and>
         base64_decode (toString_base64 block) = Some block \<and>
         (block' = block \<longrightarrow> toString_base64 block' = toString_base64 block)"
proof -
  have "\<forall>x \<in> set (map unat block). x < 256"
    using bytes_below_256 by simp
  moreover have "length (map unat block) mod 3 = 0"
    using assms by simp
  ultimately have "length (base64_groups (map unat block)) = 4 * (length (map unat block) div 3) \<and>
      set (base64_groups (map unat block)) \<subseteq> set base64_alphabet"
    by (rule base64_groups_whole)
  then have whole: "length (toString_base64 block) = 12"
      "set (toString_base64 block) \<subseteq> set base64_alphabet"
    using assms by (simp_all add: toString_base64_def)
  then have "\<forall>c \<in> set (toString_base64 block). 32 < (of_char c :: nat) \<and> (of_char c :: nat) < 127"
    using base64_alphabet_printable by blast
  then show ?thesis
    using whole base64_decode_toString by simp
qed

theorem C8_base64_of_framed_block_witness:
  "length [1, 2, 3, 4, 5, 6, 7, 8, 170 :: byte] = 9 \<and>
   toString_base64 [1, 2, 3, 4, 5, 6, 7, 8, 170] = ''AQIDBAUGBwiq'' \<and>
   length (toString_base64 [1, 2, 3, 4, 5, 6, 7, 8, 170]) = 12 \<and>
   base64_decode ''AQIDBAUGBwiq'' = Some [1, 2, 3, 4, 5, 6, 7, 8, 170]"
proof -
  have h: "length [1, 2, 3, 4, 5, 6, 7, 8, 170 :: byte] = 9"
    by simp
  have t: "toString_base64 [1, 2, 3, 4, 5, 6, 7, 8, 170] = ''AQIDBAUGBwiq''"
    by code_simp
  show ?thesis
    using C8_base64_of_framed_block [OF h] h t by simp
qed

section \<open>Classifying the peer's lines (C7)\<close>

text \<open>\<open>trim\<close> removes exactly the white space around a line.\<close>

lemma trim_inner:
  "dropWhile isWhiteSpace data =
     trim data @ rev (takeWhile isWhiteSpace (rev (dropWhile isWhiteSpace data)))"
proof -
  let ?m = "dropWhile isWhiteSpace data"
  have "rev (takeWhile isWhiteSpace (rev ?m) @ dropWhile isWhiteSpace (rev ?m)) = rev (rev ?m)"
    by (simp only: takeWhile_dropWhile_id)
  then have "rev (dropWhile isWhiteSpace (rev ?m)) @ rev (takeWhile isWhiteSpace (rev ?m)) = ?m"
    by (simp only: rev_append rev_rev_ident)
  then show ?thesis
    by (simp only: trim_def)
qed

lemma trim_decomposition:
  "\<exists>pre post. data = pre @ trim data @ post \<and>
     list_all isWhiteSpace pre \<and> list_all isWhiteSpace post"
proof -
  let ?m = "dropWhile isWhiteSpace data"
  have "data = takeWhile isWhiteSpace data @ ?m"
    by simp
  then have "data = takeWhile isWhiteSpace data @ trim data @ rev (takeWhile isWhiteSpace (rev ?m))"
    using trim_inner [of data] by simp
  moreover have "list_all isWhiteSpace (takeWhile isWhiteSpace data)"
    by (auto simp: list_all_iff dest: set_takeWhileD)
  moreover have "list_all isWhiteSpace (rev (takeWhile isWhiteSpace (rev ?m)))"
    by (auto simp: list_all_iff dest: set_takeWhileD)
  ultimately show ?thesis by blast
qed

lemma trim_ends:
  assumes "trim data \<noteq> []"
  shows "\<not> isWhiteSpace (hd (trim data))" "\<not> isWhiteSpace (last (trim data))"
proof -
  let ?m = "dropWhile isWhiteSpace data"
  let ?r = "dropWhile isWhiteSpace (rev ?m)"
  have r: "?r \<noteq> []"
    using assms by (simp add: trim_def)
  then have "\<not> isWhiteSpace (hd ?r)"
    by (rule hd_dropWhile)
  then show "\<not> isWhiteSpace (last (trim data))"
    using r by (simp add: trim_def last_rev)
  have m: "?m \<noteq> []"
  proof
    assume e: "?m = []"
    have "?r = []"
      unfolding e by simp
    with r show False by contradiction
  qed
  then have "\<not> isWhiteSpace (hd ?m)"
    by (rule hd_dropWhile)
  moreover have "hd ?m = hd (trim data)"
    using assms by (subst trim_inner) simp
  ultimately show "\<not> isWhiteSpace (hd (trim data))"
    by simp
qed

text \<open>
  C7: for every received line the handler trims the surrounding white space: the line
  is white space, the trimmed response, white space, and a response that is not empty
  neither starts nor ends with white space. A response that is exactly \<open>k\<close> emits
  \<open>CHUNK_SUCCESS\<close>, one that is exactly \<open>f\<close> emits \<open>CHUNK_FAILURE\<close>, and any other response
  emits nothing: it is printed, and index, chunks and exit flag of the sender stay as
  they are, so nothing is written to the peer.
\<close>

theorem C7_classifier:
  "(\<exists>pre post. data = pre @ trim data @ post \<and>
       list_all isWhiteSpace pre \<and> list_all isWhiteSpace post) \<and>
   (trim data \<noteq> [] \<longrightarrow>
       \<not> isWhiteSpace (hd (trim data)) \<and> \<not> isWhiteSpace (last (trim data))) \<and>
   (trim data = letter_k \<longrightarrow> parser_on_data s data = emit s CHUNK_SUCCESS) \<and>
   (trim data = letter_f \<longrightarrow> parser_on_data s data = emit s CHUNK_FAILURE) \<and>
   (trim data \<noteq> letter_k \<and> trim data \<noteq> letter_f \<longrightarrow>
       parser_on_data s data = Inr (s\<lparr>trace := trace s @ [Console (Response (trim data))]\<rparr>))"
  using trim_decomposition [of data] trim_ends [of data]
  by (simp add: parser_on_data_def console_log_def Let_def letter_k_def letter_f_def)

text \<open>The witness: the lines \<open>" k\\r"\<close>, \<open>"f\\r"\<close> and \<open>"kk\\r"\<close> received by a sender that holds
  one chunk.\<close>

theorem C7_classifier_witness:
  "trim [0x20, 0x6B, 0x0D] = letter_k \<and>
   parser_on_data \<lparr>index = \<lparr>idx = 0, max_idx = 0\<rparr>, chunks = [[9, 10]], trace = [], exited = False\<rparr> [0x20, 0x6B, 0x0D] =
     emit \<lparr>index = \<lparr>idx = 0, max_idx = 0\<rparr>, chunks = [[9, 10]], trace = [], exited = False\<rparr> CHUNK_SUCCESS \<and>
   trim [0x66, 0x0D] = letter_f \<and>
   parser_on_data \<lparr>index = \<lparr>idx = 0, max_idx = 0\<rparr>, chunks = [[9, 10]], trace = [], exited = False\<rparr> [0x66, 0x0D] =
     emit \<lparr>index = \<lparr>idx = 0, max_idx = 0\<rparr>, chunks = [[9, 10]], trace = [], exited = False\<rparr> CHUNK_FAILURE \<and>
   trim [0x6B, 0x6B, 0x0D] \<noteq> letter_k \<and> trim [0x6B, 0x6B, 0x0D] \<noteq> letter_f \<and>
   parser_on_data \<lparr>index = \<lparr>idx = 0, max_idx = 0\<rparr>, chunks = [[9, 10]], trace = [], exited = False\<rparr> [0x6B, 0x6B, 0x0D] =
     Inr \<lparr>index = \<lparr>idx = 0, max_idx = 0\<rparr>, chunks = [[9, 10]],
          trace = [Console (Response [0x6B, 0x6B])], exited = False\<rparr>"
proof -
  have t: "trim [0x20, 0x6B, 0x0D] = letter_k" "trim [0x66, 0x0D] = letter_f"
    "trim [0x6B, 0x6B, 0x0D] = [0x6B, 0x6B]"
    by (simp_all add: trim_def isWhiteSpace_def letter_k_def letter_f_def)
  have n: "[0x6B, 0x6B] \<noteq> letter_k" "[0x6B, 0x6B] \<noteq> letter_f"
    by (simp_all add: letter_k_def letter_f_def)
  show ?thesis
    using C7_classifier [of "[0x20, 0x6B, 0x0D]" "\<lparr>index = \<lparr>idx = 0, max_idx = 0\<rparr>, chunks = [[9, 10]], trace = [], exited = False\<rparr>"]
      C7_classifier [of "[0x66, 0x0D]" "\<lparr>index = \<lparr>idx = 0, max_idx = 0\<rparr>, chunks = [[9, 10]], trace = [], exited = False\<rparr>"]
      C7_classifier [of "[0x6B, 0x6B, 0x0D]" "\<lparr>index = \<lparr>idx = 0, max_idx = 0\<rparr>, chunks = [[9, 10]], trace = [], exited = False\<rparr>"]
      t n
    by simp
qed

end
